theory Spec2Isabelle
  imports Main
begin

section \<open>ModalElement.js: values, listeners and the instance state\<close>

text \<open>
  The JavaScript values that reach the truthiness tests of the class. The setters
  \<^verbatim>\<open>confirmText\<close> and \<^verbatim>\<open>declineText\<close> receive a primitive; the callback groups of
  \<^verbatim>\<open>start\<close> and \<^verbatim>\<open>registerActions\<close> receive a primitive or an array of functions.
\<close>

datatype js_prim = Undefined | Null | Bool bool | Num int | NaN | Str string

datatype 'f js_arg = Prim js_prim | Array "'f list"

fun truthy_prim :: "js_prim \<Rightarrow> bool" where
  "truthy_prim Undefined = False"
| "truthy_prim Null = False"
| "truthy_prim (Bool b) = b"
| "truthy_prim (Num n) = (n \<noteq> 0)"
| "truthy_prim NaN = False"
| "truthy_prim (Str s) = (s \<noteq> [])"

fun truthy :: "'f js_arg \<Rightarrow> bool" where
  "truthy (Prim p) = truthy_prim p"
| "truthy (Array fs) = True"

definition nullish :: "js_prim \<Rightarrow> bool" where
  "nullish p = (p = Undefined \<or> p = Null)"

text \<open>The string an assignment to \<^verbatim>\<open>innerText\<close> stores (ToString of the value).\<close>

definition digit_char :: "nat \<Rightarrow> char" where
  "digit_char d = char_of (48 + d)"

fun digits :: "nat \<Rightarrow> string" where
  "digits n = (if n < 10 then [digit_char n] else digits (n div 10) @ [digit_char (n mod 10)])"

fun to_string :: "js_prim \<Rightarrow> string" where
  "to_string Undefined = ''undefined''"
| "to_string Null = ''null''"
| "to_string (Bool b) = (if b then ''true'' else ''false'')"
| "to_string (Num n) = (if n < 0 then CHR ''-'' # digits (nat (- n)) else digits (nat n))"
| "to_string NaN = ''NaN''"
| "to_string (Str s) = s"

text \<open>
  A page callback is opaque: calling it is recorded in the log \<open>calls\<close> together with
  the value the \<^verbatim>\<open>isActive\<close> getter has at that moment. It returns normally and does
  not call back into the dialog; every statement below is about such callbacks. The only other function that ever sits in an action
  array is the closure \<^verbatim>\<open>start\<close> builds to drop the unspent listeners.
\<close>

type_synonym callback = nat

datatype fn = Callback callback | Cleanup

text \<open>
  The closure \<^verbatim>\<open>() => { actions.forEach(action => action()) }\<close> made by
  \<^verbatim>\<open>registerActions\<close>: \<open>lid\<close> is its identity as an object, \<open>lactions\<close> the value of
  \<^verbatim>\<open>actions\<close> it captured.
\<close>

record listener =
  ltype :: string
  lid :: nat
  lactions :: "fn js_arg"

datatype element = PageElement nat | ModalContent

datatype error = AlreadyActive

text \<open>
  The instance and the part of the page it touches. \<open>attached\<close> is the event listener
  list of the root element without the overlay click listener of \<^verbatim>\<open>#buildModal\<close>, which
  is always there and is part of \<open>dispatchEvent\<close> below. A display field is the inline
  \<^verbatim>\<open>style.display\<close> (\<open>None\<close> once the property is removed).
\<close>

record state =
  titleHTML :: string
  descriptionHTML :: string
  confirmLabel :: string
  declineLabel :: string
  modalDisplay :: "string option"
  confirmDisplay :: "string option"
  declineDisplay :: "string option"
  attached :: "listener list"
  registeredListeners :: "listener list"
  preModalFocusTarget :: "element option"
  isActive :: bool
  activeElement :: "element option"
  nextId :: nat
  calls :: "(callback \<times> bool) list"

abbreviation DEFAULT_CONFIRM_TEXT :: string where
  "DEFAULT_CONFIRM_TEXT \<equiv> ''Ok''"

abbreviation DEFAULT_DECLINE_TEXT :: string where
  "DEFAULT_DECLINE_TEXT \<equiv> ''Decline''"

abbreviation onStart :: string where "onStart \<equiv> ''modalStart''"
abbreviation onEnd :: string where "onEnd \<equiv> ''modalEnd''"
abbreviation onConfirm :: string where "onConfirm \<equiv> ''modalConfirm''"
abbreviation onDecline :: string where "onDecline \<equiv> ''modalDecline''"

text \<open>The constructor: both buttons carry their default label and no inline display.\<close>

definition constructor :: "bool \<Rightarrow> state" where
  "constructor generateCSS =
     \<lparr> titleHTML = [], descriptionHTML = [],
       confirmLabel = DEFAULT_CONFIRM_TEXT, declineLabel = DEFAULT_DECLINE_TEXT,
       modalDisplay = None, confirmDisplay = None, declineDisplay = None,
       attached = [], registeredListeners = [],
       preModalFocusTarget = None, isActive = False,
       activeElement = None, nextId = 0, calls = [] \<rparr>"

text \<open>With the default stylesheet a button shows only under an inline \<^verbatim>\<open>display: block\<close>.\<close>

definition visible :: "string option \<Rightarrow> bool" where
  "visible d = (d = Some ''block'')"

section \<open>The setters\<close>

definition set_confirmText :: "js_prim \<Rightarrow> state \<Rightarrow> state" where
  "set_confirmText newText s =
     (if truthy_prim newText then s\<lparr>confirmLabel := to_string newText\<rparr>
      else s\<lparr>confirmLabel := DEFAULT_CONFIRM_TEXT\<rparr>)"

definition set_declineText :: "js_prim \<Rightarrow> state \<Rightarrow> state" where
  "set_declineText newText s =
     (if truthy_prim newText then s\<lparr>declineLabel := to_string newText\<rparr>
      else s\<lparr>declineLabel := DEFAULT_DECLINE_TEXT\<rparr>)"

section \<open>Listeners of the root element\<close>

text \<open>
  \<^verbatim>\<open>addEventListener\<close> ignores a listener that is already in the list (same type and
  callback); \<^verbatim>\<open>removeEventListener\<close> drops the one with that type and callback.
\<close>

definition same_listener :: "listener \<Rightarrow> listener \<Rightarrow> bool" where
  "same_listener a b = (ltype a = ltype b \<and> lid a = lid b)"

definition addEventListener :: "listener \<Rightarrow> listener list \<Rightarrow> listener list" where
  "addEventListener l ls = (if list_ex (same_listener l) ls then ls else ls @ [l])"

definition removeEventListener :: "listener \<Rightarrow> listener list \<Rightarrow> listener list" where
  "removeEventListener l ls = filter (\<lambda>x. \<not> same_listener l x) ls"

definition registerActions :: "string \<Rightarrow> fn js_arg \<Rightarrow> state \<Rightarrow> state" where
  "registerActions eventIdentifier actions s =
     (if \<not> truthy actions then s
      else
        let l = \<lparr> ltype = eventIdentifier, lid = nextId s, lactions = actions \<rparr>
        in s\<lparr> registeredListeners := registeredListeners s @ [l],
              attached := addEventListener l (attached s),
              nextId := Suc (nextId s) \<rparr>)"

text \<open>Calling one function of an action array.\<close>

fun call :: "fn \<Rightarrow> state \<Rightarrow> state" where
  "call (Callback c) s = s\<lparr>calls := calls s @ [(c, isActive s)]\<rparr>"
| "call Cleanup s =
     s\<lparr> attached := fold removeEventListener (registeredListeners s) (attached s),
        registeredListeners := [] \<rparr>"

text \<open>
  Running a listener. A truthy value that is no array has no \<^verbatim>\<open>forEach\<close>: the listener
  raises a TypeError, which event dispatch reports and does not propagate.
\<close>

fun run_listener :: "listener \<Rightarrow> state \<Rightarrow> state" where
  "run_listener l s = (case lactions l of Array fs \<Rightarrow> fold call fs s | Prim p \<Rightarrow> s)"

text \<open>
  Dispatch works on the listeners present when it starts and skips one that has been
  removed in the meantime.
\<close>

fun invoke_listeners :: "listener list \<Rightarrow> state \<Rightarrow> state" where
  "invoke_listeners [] s = s"
| "invoke_listeners (l # ls) s =
     invoke_listeners ls (if list_ex (same_listener l) (attached s) then run_listener l s else s)"

text \<open>
  The loop of \<^verbatim>\<open>invokeEvent\<close>, from the last index down: \<open>remove_registered i t s\<close> has
  the indices below \<open>i\<close> still to visit. It is entered with the length of the registry
  and a \<^verbatim>\<open>splice\<close> at \<open>i\<close> leaves the lower indices alone, so every index it reads is
  in range.
\<close>

fun remove_registered :: "nat \<Rightarrow> string \<Rightarrow> state \<Rightarrow> state" where
  "remove_registered 0 t s = s"
| "remove_registered (Suc i) t s =
     (let el = registeredListeners s ! i
      in remove_registered i t
           (if ltype el = t
            then s\<lparr> registeredListeners := take i (registeredListeners s) @ drop (Suc i) (registeredListeners s),
                    attached := removeEventListener el (attached s) \<rparr>
            else s))"

definition focus :: "element \<Rightarrow> state \<Rightarrow> state" where
  "focus e s = s\<lparr>activeElement := Some e\<rparr>"

section \<open>invokeEvent and end\<close>

text \<open>
  An event dispatched on the root element has the root as its target, so a \<^verbatim>\<open>click\<close>
  event first runs the overlay listener of \<^verbatim>\<open>#buildModal\<close>, which calls \<^verbatim>\<open>end()\<close>.
  \<^verbatim>\<open>end\<close> dispatches \<^verbatim>\<open>modalEnd\<close> through \<^verbatim>\<open>invokeEvent\<close>, hence the mutual recursion.
\<close>

function dispatchEvent :: "string \<Rightarrow> state \<Rightarrow> state"
  and invokeEvent :: "string \<Rightarrow> state \<Rightarrow> state"
  and end_modal :: "state \<Rightarrow> state"
where
  "dispatchEvent t s =
     (let present = filter (\<lambda>l. ltype l = t) (attached s)
      in invoke_listeners present (if t = ''click'' then end_modal s else s))"
| "invokeEvent t s =
     (let s1 = dispatchEvent t s
      in remove_registered (length (registeredListeners s1)) t s1)"
| "end_modal s =
     (let s1 = s\<lparr>modalDisplay := None\<rparr>;
          s2 = (case preModalFocusTarget s1 of None \<Rightarrow> s1 | Some e \<Rightarrow> focus e s1);
          s3 = s2\<lparr>preModalFocusTarget := None\<rparr>;
          s4 = invokeEvent onEnd s3
      in s4\<lparr>isActive := False\<rparr>)"
  by pat_completeness auto
termination
  by (relation "measure (\<lambda>x. case x of
         Inl (t, s) \<Rightarrow> (if t = ''click'' then 3 else 0)
       | Inr (Inl (t, s)) \<Rightarrow> (if t = ''click'' then 4 else 1)
       | Inr (Inr s) \<Rightarrow> 2)") auto

section \<open>start\<close>

text \<open>
  The callback groups a caller passes hold page callbacks only; \<open>as_fns\<close> is the same
  value seen as an array of functions.
\<close>

fun as_fns :: "callback js_arg \<Rightarrow> fn js_arg" where
  "as_fns (Prim p) = Prim p"
| "as_fns (Array cs) = Array (map Callback cs)"

text \<open>
  \<^verbatim>\<open>title\<close> and \<^verbatim>\<open>description\<close> are strings (an omitted one is the empty string) and
  are stored as markup, uninterpreted. The result pairs the error raised, if any, with the
  state the call leaves behind.
\<close>

definition start ::
  "string \<Rightarrow> string \<Rightarrow> callback js_arg \<Rightarrow> callback js_arg \<Rightarrow> callback js_arg \<Rightarrow> callback js_arg
     \<Rightarrow> state \<Rightarrow> error option \<times> state" where
  "start title description onEndActions onConfirmActions onDeclineActions onStartActions s =
     (if isActive s then (Some AlreadyActive, s)
      else
        let s1 = s\<lparr>titleHTML := title, descriptionHTML := description\<rparr>;
            s2 = registerActions onStart (as_fns onStartActions) s1;
            s3 = registerActions onConfirm (as_fns onConfirmActions) s2;
            s4 = registerActions onDecline (as_fns onDeclineActions) s3;
            s5 = registerActions onEnd (as_fns onEndActions) s4;
            s6 = registerActions onEnd (Array [Cleanup]) s5;
            s7 = (if onConfirmActions \<noteq> Prim Undefined
                  then s6\<lparr>confirmDisplay := Some ''block''\<rparr>
                  else s6\<lparr>confirmDisplay := None\<rparr>);
            s8 = (if onDeclineActions \<noteq> Prim Undefined
                  then s7\<lparr>declineDisplay := Some ''block''\<rparr>
                  else s7\<lparr>declineDisplay := None\<rparr>);
            s9 = s8\<lparr>modalDisplay := Some ''block''\<rparr>;
            s10 = s9\<lparr>preModalFocusTarget := activeElement s9\<rparr>;
            s11 = focus ModalContent s10;
            s12 = invokeEvent onStart s11
        in (None, s12\<lparr>isActive := True\<rparr>))"

section \<open>The buttons\<close>

text \<open>
  A click on a button or on the close cross runs that element's own listener and then
  bubbles to the root, where the overlay listener sees another target and does nothing,
  and the \<^verbatim>\<open>click\<close> listeners still attached run. A click on the overlay background
  is a \<^verbatim>\<open>click\<close> event whose target is the root.
\<close>

definition bubble_click :: "state \<Rightarrow> state" where
  "bubble_click s = invoke_listeners (filter (\<lambda>l. ltype l = ''click'') (attached s)) s"

definition click_confirm :: "state \<Rightarrow> state" where
  "click_confirm s = bubble_click (end_modal (invokeEvent onConfirm s))"

definition click_decline :: "state \<Rightarrow> state" where
  "click_decline s = bubble_click (end_modal (invokeEvent onDecline s))"

definition click_close :: "state \<Rightarrow> state" where
  "click_close s = bubble_click (end_modal s)"

definition click_overlay :: "state \<Rightarrow> state" where
  "click_overlay s = dispatchEvent ''click'' s"

section \<open>The public operations as one step function\<close>

datatype op =
    Start string string "callback js_arg" "callback js_arg" "callback js_arg" "callback js_arg"
  | End
  | RegisterActions string "callback js_arg"
  | InvokeEvent string
  | SetConfirmText js_prim
  | SetDeclineText js_prim
  | ClickConfirm
  | ClickDecline
  | ClickClose
  | ClickOverlay

fun step :: "op \<Rightarrow> state \<Rightarrow> error option \<times> state" where
  "step (Start title description e c d st) s = start title description e c d st s"
| "step End s = (None, end_modal s)"
| "step (RegisterActions t v) s = (None, registerActions t (as_fns v) s)"
| "step (InvokeEvent t) s = (None, invokeEvent t s)"
| "step (SetConfirmText p) s = (None, set_confirmText p s)"
| "step (SetDeclineText p) s = (None, set_declineText p s)"
| "step ClickConfirm s = (None, click_confirm s)"
| "step ClickDecline s = (None, click_decline s)"
| "step ClickClose s = (None, click_close s)"
| "step ClickOverlay s = (None, click_overlay s)"

text \<open>A script of calls stops at the first error, as an uncaught exception would.\<close>

fun run :: "op list \<Rightarrow> state \<Rightarrow> error option \<times> state" where
  "run [] s = (None, s)"
| "run (x # xs) s = (case step x s of (None, s') \<Rightarrow> run xs s' | (Some err, s') \<Rightarrow> (Some err, s'))"


text \<open>
  The calls that neither open nor close the dialog: registering actions, dispatching an
  event other than \<^verbatim>\<open>click\<close> by hand, and the two setters. \<open>keeps_cleanup\<close> excludes
  in addition a hand-made dispatch of the end event.
\<close>

fun stays_open :: "op \<Rightarrow> bool" where
  "stays_open (RegisterActions t v) = True"
| "stays_open (InvokeEvent t) = (t \<noteq> ''click'')"
| "stays_open (SetConfirmText p) = True"
| "stays_open (SetDeclineText p) = True"
| "stays_open x = False"

fun keeps_cleanup :: "op \<Rightarrow> bool" where
  "keeps_cleanup (InvokeEvent t) = (t \<noteq> ''click'' \<and> t \<noteq> onEnd)"
| "keeps_cleanup x = stays_open x"

section \<open>Notions used to state the properties\<close>

text \<open>The page callbacks of an action array, of a listener, and of a callback group.\<close>

fun callbacks_in :: "fn list \<Rightarrow> callback list" where
  "callbacks_in [] = []"
| "callbacks_in (Callback c # fs) = c # callbacks_in fs"
| "callbacks_in (Cleanup # fs) = callbacks_in fs"

definition callbacks_of :: "listener \<Rightarrow> callback list" where
  "callbacks_of l = (case lactions l of Array fs \<Rightarrow> callbacks_in fs | Prim p \<Rightarrow> [])"

fun actions_of :: "callback js_arg \<Rightarrow> callback list" where
  "actions_of (Array cs) = cs"
| "actions_of (Prim p) = []"

definition is_cleanup :: "listener \<Rightarrow> bool" where
  "is_cleanup l = (lactions l = Array [Cleanup])"

definition user_listener :: "listener \<Rightarrow> bool" where
  "user_listener l = (case lactions l of Array fs \<Rightarrow> Cleanup \<notin> set fs | Prim p \<Rightarrow> True)"

text \<open>
  The states the class can be in: the registry and the listener list of the root hold
  the same closures, each closure is older than the next one to be made, and the cleanup
  closure sits only where \<^verbatim>\<open>start\<close> puts it, on the end event.
\<close>

definition listener_ok :: "nat \<Rightarrow> listener \<Rightarrow> bool" where
  "listener_ok n l = (lid l < n \<and> (if is_cleanup l then ltype l = onEnd else user_listener l))"

definition wf :: "state \<Rightarrow> bool" where
  "wf s = (attached s = registeredListeners s \<and> list_all (listener_ok (nextId s)) (attached s))"

text \<open>
  What an event of type \<open>t\<close> does to a listener list \<open>ls\<close>: the callbacks it calls, in
  order (those of the listeners of that type up to the first cleanup listener), and the
  listeners left afterwards.
\<close>

definition fired :: "string \<Rightarrow> listener list \<Rightarrow> callback list" where
  "fired t ls = concat (map callbacks_of (takeWhile (\<lambda>l. \<not> is_cleanup l) (filter (\<lambda>l. ltype l = t) ls)))"

definition remaining :: "string \<Rightarrow> listener list \<Rightarrow> listener list" where
  "remaining t ls = (if list_ex is_cleanup (filter (\<lambda>l. ltype l = t) ls) then []
                     else filter (\<lambda>l. ltype l \<noteq> t) ls)"


definition log_calls :: "callback list \<Rightarrow> state \<Rightarrow> state" where
  "log_calls cs s = s\<lparr>calls := calls s @ map (\<lambda>c. (c, isActive s)) cs\<rparr>"

text \<open>The callbacks called between two states, each with the flag it saw.\<close>

definition new_calls :: "state \<Rightarrow> state \<Rightarrow> (callback \<times> bool) list" where
  "new_calls s s' = drop (length (calls s)) (calls s')"

text \<open>
  \<open>frame s s'\<close>: from \<open>s\<close> to \<open>s'\<close> nothing changed but the listeners and the log, and
  every callback logged in between saw the flag of \<open>s\<close>.
\<close>

definition frame :: "state \<Rightarrow> state \<Rightarrow> bool" where
  "frame s s' =
     (titleHTML s' = titleHTML s \<and> descriptionHTML s' = descriptionHTML s \<and>
      confirmLabel s' = confirmLabel s \<and> declineLabel s' = declineLabel s \<and>
      modalDisplay s' = modalDisplay s \<and> confirmDisplay s' = confirmDisplay s \<and>
      declineDisplay s' = declineDisplay s \<and> preModalFocusTarget s' = preModalFocusTarget s \<and>
      isActive s' = isActive s \<and> activeElement s' = activeElement s \<and>
      calls s' = calls s @ new_calls s s' \<and>
      list_all (\<lambda>x. snd x = isActive s) (new_calls s s'))"

text \<open>The state of \<^verbatim>\<open>start\<close> just before it dispatches the start event.\<close>

definition prepared :: "string \<Rightarrow> string \<Rightarrow> callback js_arg \<Rightarrow> callback js_arg \<Rightarrow> callback js_arg
     \<Rightarrow> callback js_arg \<Rightarrow> state \<Rightarrow> state" where
  "prepared title description e c d st s =
     focus ModalContent
       ((registerActions onEnd (Array [Cleanup])
          (registerActions onEnd (as_fns e)
            (registerActions onDecline (as_fns d)
              (registerActions onConfirm (as_fns c)
                (registerActions onStart (as_fns st)
                  (s\<lparr>titleHTML := title, descriptionHTML := description\<rparr>))))))
        \<lparr> confirmDisplay := (if c \<noteq> Prim Undefined then Some ''block'' else None),
          declineDisplay := (if d \<noteq> Prim Undefined then Some ''block'' else None),
          modalDisplay := Some ''block'',
          preModalFocusTarget := activeElement s \<rparr>)"

text \<open>The registry entry \<^verbatim>\<open>registerActions\<close> makes for a value, if any.\<close>

definition entry :: "string \<Rightarrow> fn js_arg \<Rightarrow> nat \<Rightarrow> listener list" where
  "entry t v n = (if truthy v then [\<lparr> ltype = t, lid = n, lactions = v \<rparr>] else [])"

definition value_ok :: "string \<Rightarrow> fn js_arg \<Rightarrow> bool" where
  "value_ok t v = (case v of Prim p \<Rightarrow> True
                   | Array fs \<Rightarrow> if fs = [Cleanup] then t = onEnd else Cleanup \<notin> set fs)"

text \<open>
  \<open>closed_clean\<close>: a well-formed state in which a closed dialog has no cleanup listener
  left. \<open>has_cleanup\<close>: the cleanup listener of the running invocation is still attached.
\<close>

definition closed_clean :: "state \<Rightarrow> bool" where
  "closed_clean s = (wf s \<and> (\<not> isActive s \<longrightarrow> \<not> list_ex is_cleanup (attached s)))"

definition has_cleanup :: "state \<Rightarrow> bool" where
  "has_cleanup s = list_ex is_cleanup (filter (\<lambda>l. ltype l = onEnd) (attached s))"

section \<open>Auxiliary facts\<close>

text \<open>
  The three mutually recursive equations are unfolded by hand. In a well-formed state an
  event other than \<^verbatim>\<open>click\<close> has a closed form (\<open>invokeEvent_wf\<close>, \<open>end_modal_wf\<close>);
  in any state it changes only the listeners and the log (\<open>frame_invokeEvent\<close>).
\<close>

declare dispatchEvent.simps [simp del] invokeEvent.simps [simp del] end_modal.simps [simp del]
declare digits.simps [simp del]

lemma fold_call_user:
  "Cleanup \<notin> set fs \<Longrightarrow> fold call fs s = log_calls (callbacks_in fs) s"
proof (induction fs arbitrary: s)
  case Nil
  show ?case by (simp add: log_calls_def)
next
  case (Cons f fs)
  then obtain c where f: "f = Callback c" by (cases f) auto
  from Cons have "fold call fs (call f s) = log_calls (callbacks_in fs) (call f s)" by simp
  then show ?case by (simp add: f log_calls_def)
qed

lemma run_listener_user:
  "user_listener l \<Longrightarrow> run_listener l s = log_calls (callbacks_of l) s"
  by (cases "lactions l") (simp_all add: user_listener_def callbacks_of_def fold_call_user log_calls_def)

lemma log_calls_append: "log_calls ys (log_calls xs s) = log_calls (xs @ ys) s"
  by (simp add: log_calls_def)

lemma invoke_listeners_append:
  "invoke_listeners (xs @ ys) s = invoke_listeners ys (invoke_listeners xs s)"
  by (induction xs arbitrary: s) simp_all

lemma invoke_listeners_users:
  "list_all user_listener ls \<Longrightarrow> list_all (\<lambda>l. list_ex (same_listener l) (attached s)) ls
     \<Longrightarrow> invoke_listeners ls s = log_calls (concat (map callbacks_of ls)) s"
proof (induction ls arbitrary: s)
  case Nil
  show ?case by (simp add: log_calls_def)
next
  case (Cons l ls)
  have a: "attached (log_calls (callbacks_of l) s) = attached s" by (simp add: log_calls_def)
  from Cons.prems have "invoke_listeners (l # ls) s = invoke_listeners ls (log_calls (callbacks_of l) s)"
    by (simp add: run_listener_user del: run_listener.simps)
  also have "\<dots> = log_calls (concat (map callbacks_of ls)) (log_calls (callbacks_of l) s)"
    using Cons.prems by (intro Cons.IH) (simp_all add: a)
  finally show ?case by (simp add: log_calls_append)
qed

lemma invoke_listeners_detached:
  "attached s = [] \<Longrightarrow> invoke_listeners ls s = s"
  by (induction ls) simp_all

lemma fold_remove_self_aux:
  "set ys \<subseteq> set xs \<Longrightarrow> fold removeEventListener xs ys = []"
proof (induction xs arbitrary: ys)
  case Nil then show ?case by simp
next
  case (Cons x xs)
  have "set (removeEventListener x ys) \<subseteq> set xs"
    using Cons.prems by (auto simp: removeEventListener_def same_listener_def)
  then show ?case using Cons.IH by simp
qed

lemma run_cleanup:
  "is_cleanup l \<Longrightarrow> attached s = registeredListeners s
     \<Longrightarrow> run_listener l s = s\<lparr>attached := [], registeredListeners := []\<rparr>"
  by (simp add: is_cleanup_def fold_remove_self_aux)

lemma invoke_listeners_cleanup:
  "is_cleanup l \<Longrightarrow> attached s = registeredListeners s \<Longrightarrow> list_ex (same_listener l) (attached s)
     \<Longrightarrow> invoke_listeners (l # ls) s = s\<lparr>attached := [], registeredListeners := []\<rparr>"
  by (simp add: run_cleanup invoke_listeners_detached del: run_listener.simps)

lemma remove_registered_other [simp]:
  "titleHTML (remove_registered n t s) = titleHTML s"
  "descriptionHTML (remove_registered n t s) = descriptionHTML s"
  "confirmLabel (remove_registered n t s) = confirmLabel s"
  "declineLabel (remove_registered n t s) = declineLabel s"
  "modalDisplay (remove_registered n t s) = modalDisplay s"
  "confirmDisplay (remove_registered n t s) = confirmDisplay s"
  "declineDisplay (remove_registered n t s) = declineDisplay s"
  "preModalFocusTarget (remove_registered n t s) = preModalFocusTarget s"
  "isActive (remove_registered n t s) = isActive s"
  "activeElement (remove_registered n t s) = activeElement s"
  "nextId (remove_registered n t s) = nextId s"
  "calls (remove_registered n t s) = calls s"
  by (induction n arbitrary: s; simp add: Let_def)+

lemma remove_registered_lists:
  "n \<le> length (registeredListeners s) \<Longrightarrow>
     registeredListeners (remove_registered n t s)
       = filter (\<lambda>l. ltype l \<noteq> t) (take n (registeredListeners s)) @ drop n (registeredListeners s)
   \<and> attached (remove_registered n t s)
       = filter (\<lambda>x. \<not> (\<exists>el \<in> set (take n (registeredListeners s)). ltype el = t \<and> same_listener el x))
           (attached s)"
proof (induction n arbitrary: s)
  case 0
  show ?case by simp
next
  case (Suc i)
  let ?R = "registeredListeners s"
  let ?el = "?R ! i"
  from Suc.prems have i: "i < length ?R" by simp
  have tk: "take (Suc i) ?R = take i ?R @ [?el]" using i by (simp add: take_Suc_conv_app_nth)
  show ?case
  proof (cases "ltype ?el = t")
    case False
    then have "remove_registered (Suc i) t s = remove_registered i t s" by (simp add: Let_def)
    moreover have "drop i ?R = ?el # drop (Suc i) ?R" using i by (simp add: Cons_nth_drop_Suc)
    ultimately show ?thesis using Suc.IH [of s] i False by (simp add: tk)
  next
    case True
    define s' where "s' = s\<lparr> registeredListeners := take i ?R @ drop (Suc i) ?R,
                             attached := removeEventListener ?el (attached s) \<rparr>"
    have eq: "remove_registered (Suc i) t s = remove_registered i t s'"
      using True by (simp add: Let_def s'_def)
    have len: "i \<le> length (registeredListeners s')" using i by (simp add: s'_def)
    have tk': "take i (registeredListeners s') = take i ?R" using i by (simp add: s'_def)
    have dr': "drop i (registeredListeners s') = drop (Suc i) ?R" using i by (simp add: s'_def)
    have at': "attached s' = filter (\<lambda>x. \<not> same_listener ?el x) (attached s)"
      by (simp add: s'_def removeEventListener_def)
    from Suc.IH [OF len] show ?thesis
      unfolding eq tk' dr' at' tk using True by (auto intro: filter_cong)
  qed
qed

lemma filter_same_type:
  "filter (\<lambda>x. \<forall>el \<in> set xs. ltype el = t \<longrightarrow> \<not> same_listener el x) xs
     = filter (\<lambda>l. ltype l \<noteq> t) xs"
  by (rule filter_cong) (auto simp: same_listener_def)

lemma remove_registered_wf:
  assumes "attached s = registeredListeners s"
  shows "remove_registered (length (registeredListeners s)) t s
           = s\<lparr> registeredListeners := filter (\<lambda>l. ltype l \<noteq> t) (registeredListeners s),
                 attached := filter (\<lambda>l. ltype l \<noteq> t) (registeredListeners s) \<rparr>"
proof -
  have "registeredListeners (remove_registered (length (registeredListeners s)) t s)
          = filter (\<lambda>l. ltype l \<noteq> t) (registeredListeners s)"
    using remove_registered_lists [of "length (registeredListeners s)" s t] by simp
  moreover have "attached (remove_registered (length (registeredListeners s)) t s)
          = filter (\<lambda>l. ltype l \<noteq> t) (registeredListeners s)"
    using remove_registered_lists [of "length (registeredListeners s)" s t] assms
    by (simp add: filter_same_type)
  ultimately show ?thesis by (intro state.equality) simp_all
qed

lemma attached_member: "l \<in> set (attached s) \<Longrightarrow> list_ex (same_listener l) (attached s)"
  by (auto simp: list_ex_iff same_listener_def)

lemma invoke_present:
  assumes eq: "attached s = registeredListeners s"
    and ok: "list_all (\<lambda>l. is_cleanup l \<or> user_listener l) (attached s)"
  shows "invoke_listeners (filter (\<lambda>l. ltype l = t) (attached s)) s
           = (if list_ex is_cleanup (filter (\<lambda>l. ltype l = t) (attached s))
              then (log_calls (fired t (attached s)) s)\<lparr>attached := [], registeredListeners := []\<rparr>
              else log_calls (fired t (attached s)) s)"
proof -
  let ?snap = "filter (\<lambda>l. ltype l = t) (attached s)"
  let ?pre = "takeWhile (\<lambda>l. \<not> is_cleanup l) ?snap"
  let ?post = "dropWhile (\<lambda>l. \<not> is_cleanup l) ?snap"
  let ?s1 = "log_calls (fired t (attached s)) s"
  have sub: "set ?pre \<subseteq> set (attached s)"
    using set_takeWhileD by fastforce
  have users: "list_all user_listener ?pre"
    using ok sub by (auto simp: list_all_iff dest: set_takeWhileD)
  have pres: "list_all (\<lambda>l. list_ex (same_listener l) (attached s)) ?pre"
    using sub by (auto simp: list_all_iff intro: attached_member)
  have pre: "invoke_listeners ?pre s = ?s1"
    using invoke_listeners_users [OF users pres] by (simp add: fired_def)
  have split: "invoke_listeners ?snap s = invoke_listeners ?post ?s1"
    using invoke_listeners_append [of ?pre ?post s] pre by simp
  show ?thesis
  proof (cases "list_ex is_cleanup ?snap")
    case False
    then have "?post = []" by (auto simp: list_ex_iff)
    with split False show ?thesis by simp
  next
    case True
    then have ne: "?post \<noteq> []" by (auto simp: list_ex_iff)
    then obtain k rest where post: "?post = k # rest" by (cases ?post) auto
    have k: "is_cleanup k" using hd_dropWhile [OF ne] post by simp
    have "k \<in> set ?post" using post by simp
    then have "k \<in> set (attached s)" using set_dropWhileD by fastforce
    then have att: "list_ex (same_listener k) (attached ?s1)"
      by (simp add: log_calls_def attached_member)
    have eq1: "attached ?s1 = registeredListeners ?s1" using eq by (simp add: log_calls_def)
    from invoke_listeners_cleanup [OF k eq1 att] split post True show ?thesis by simp
  qed
qed

lemma dispatchEvent_wf:
  assumes "wf s" and "t \<noteq> ''click''"
  shows "dispatchEvent t s
           = (if list_ex is_cleanup (filter (\<lambda>l. ltype l = t) (attached s))
              then (log_calls (fired t (attached s)) s)\<lparr>attached := [], registeredListeners := []\<rparr>
              else log_calls (fired t (attached s)) s)"
proof -
  have ok: "list_all (\<lambda>l. is_cleanup l \<or> user_listener l) (attached s)"
    using assms(1) by (auto simp: wf_def listener_ok_def list_all_iff split: if_splits)
  have eq: "attached s = registeredListeners s" using assms(1) by (simp add: wf_def)
  show ?thesis using invoke_present [OF eq ok, of t] assms(2) by (simp add: dispatchEvent.simps)
qed

lemma invokeEvent_wf:
  assumes "wf s" and "t \<noteq> ''click''"
  shows "invokeEvent t s
           = s\<lparr> calls := calls s @ map (\<lambda>c. (c, isActive s)) (fired t (attached s)),
                 attached := remaining t (attached s),
                 registeredListeners := remaining t (attached s) \<rparr>"
proof -
  have eq: "attached s = registeredListeners s" using assms(1) by (simp add: wf_def)
  let ?s1 = "dispatchEvent t s"
  show ?thesis
  proof (cases "list_ex is_cleanup (filter (\<lambda>l. ltype l = t) (attached s))")
    case True
    then have d: "?s1 = (log_calls (fired t (attached s)) s)\<lparr>attached := [], registeredListeners := []\<rparr>"
      using dispatchEvent_wf [OF assms] by simp
    show ?thesis unfolding invokeEvent.simps Let_def d using True
      by (simp add: remaining_def log_calls_def)
  next
    case False
    then have d: "?s1 = log_calls (fired t (attached s)) s"
      using dispatchEvent_wf [OF assms] by simp
    have eq1: "attached ?s1 = registeredListeners ?s1" using eq by (simp add: d log_calls_def)
    show ?thesis unfolding invokeEvent.simps Let_def
      using remove_registered_wf [OF eq1, of t] False eq
      by (simp add: d remaining_def log_calls_def)
  qed
qed

lemma wf_invokeEvent: "wf s \<Longrightarrow> t \<noteq> ''click'' \<Longrightarrow> wf (invokeEvent t s)"
  by (simp add: invokeEvent_wf) (auto simp: wf_def remaining_def list_all_iff)

lemma end_modal_wf:
  assumes "wf s"
  shows "end_modal s
           = s\<lparr> modalDisplay := None,
                 activeElement := (case preModalFocusTarget s of None \<Rightarrow> activeElement s | Some e \<Rightarrow> Some e),
                 preModalFocusTarget := None,
                 calls := calls s @ map (\<lambda>c. (c, isActive s)) (fired onEnd (attached s)),
                 attached := remaining onEnd (attached s),
                 registeredListeners := remaining onEnd (attached s),
                 isActive := False \<rparr>"
proof -
  let ?s3 = "(case preModalFocusTarget s of None \<Rightarrow> s\<lparr>modalDisplay := None\<rparr>
              | Some e \<Rightarrow> focus e (s\<lparr>modalDisplay := None\<rparr>))\<lparr>preModalFocusTarget := None\<rparr>"
  have wf3: "wf ?s3" using assms by (auto simp: wf_def focus_def split: option.splits)
  have "end_modal s = (invokeEvent onEnd ?s3)\<lparr>isActive := False\<rparr>"
    by (simp add: end_modal.simps Let_def)
  then show ?thesis
    by (simp add: invokeEvent_wf [OF wf3]) (simp add: focus_def split: option.splits)
qed

lemma wf_end_modal: "wf s \<Longrightarrow> wf (end_modal s)"
  by (simp add: end_modal_wf) (auto simp: wf_def remaining_def list_all_iff)

lemma frame_refl: "frame s s"
  by (simp add: frame_def new_calls_def)

lemma frame_trans:
  assumes "frame s s'" and "frame s' s''"
  shows "frame s s''"
proof -
  obtain xs where xs: "calls s' = calls s @ xs" "list_all (\<lambda>x. snd x = isActive s) xs"
    using assms(1) unfolding frame_def by blast
  obtain ys where ys: "calls s'' = calls s' @ ys" "list_all (\<lambda>x. snd x = isActive s') ys"
    using assms(2) unfolding frame_def by blast
  have act: "isActive s' = isActive s" using assms(1) by (simp add: frame_def)
  have n: "new_calls s s'' = xs @ ys" by (simp add: new_calls_def xs ys)
  show ?thesis
    using assms xs ys act unfolding frame_def n by simp
qed

lemma frame_call: "frame s (call f s)"
  by (cases f) (simp_all add: frame_def new_calls_def)

lemma frame_fold_call: "frame s (fold call fs s)"
proof (induction fs arbitrary: s)
  case Nil
  show ?case by (simp add: frame_refl)
next
  case (Cons f fs)
  have "frame (call f s) (fold call fs (call f s))" by (rule Cons.IH)
  with frame_call [of s f] show ?case by (auto intro: frame_trans)
qed

lemma frame_run_listener: "frame s (run_listener l s)"
  by (cases "lactions l") (simp_all add: frame_refl frame_fold_call)

lemma frame_invoke_listeners: "frame s (invoke_listeners ls s)"
proof (induction ls arbitrary: s)
  case Nil
  show ?case by (simp add: frame_refl)
next
  case (Cons l ls)
  let ?s1 = "if list_ex (same_listener l) (attached s) then run_listener l s else s"
  have "frame s ?s1" using frame_run_listener [of s l] by (simp add: frame_refl del: run_listener.simps)
  moreover have "frame ?s1 (invoke_listeners ls ?s1)" by (rule Cons.IH)
  ultimately show ?case by (auto intro: frame_trans simp del: run_listener.simps)
qed

lemma frame_remove_registered: "frame s (remove_registered n t s)"
  by (simp add: frame_def new_calls_def)

lemma frame_dispatchEvent: "t \<noteq> ''click'' \<Longrightarrow> frame s (dispatchEvent t s)"
  by (simp add: dispatchEvent.simps frame_invoke_listeners)

lemma frame_invokeEvent: "t \<noteq> ''click'' \<Longrightarrow> frame s (invokeEvent t s)"
  using frame_trans [OF frame_dispatchEvent frame_remove_registered]
  by (simp add: invokeEvent.simps Let_def)

lemma frame_registerActions:
  "titleHTML (registerActions t v s) = titleHTML s"
  "descriptionHTML (registerActions t v s) = descriptionHTML s"
  "confirmLabel (registerActions t v s) = confirmLabel s"
  "declineLabel (registerActions t v s) = declineLabel s"
  "modalDisplay (registerActions t v s) = modalDisplay s"
  "confirmDisplay (registerActions t v s) = confirmDisplay s"
  "declineDisplay (registerActions t v s) = declineDisplay s"
  "preModalFocusTarget (registerActions t v s) = preModalFocusTarget s"
  "isActive (registerActions t v s) = isActive s"
  "activeElement (registerActions t v s) = activeElement s"
  "calls (registerActions t v s) = calls s"
  by (simp_all add: registerActions_def Let_def)

lemma start_prepared:
  "\<not> isActive s \<Longrightarrow>
     start title description e c d st s
       = (None, (invokeEvent onStart (prepared title description e c d st s))\<lparr>isActive := True\<rparr>)"
  by (simp add: start_def prepared_def Let_def frame_registerActions focus_def)

lemma prepared_fields:
  "titleHTML (prepared title description e c d st s) = title"
  "descriptionHTML (prepared title description e c d st s) = description"
  "confirmLabel (prepared title description e c d st s) = confirmLabel s"
  "declineLabel (prepared title description e c d st s) = declineLabel s"
  "modalDisplay (prepared title description e c d st s) = Some ''block''"
  "confirmDisplay (prepared title description e c d st s) = (if c \<noteq> Prim Undefined then Some ''block'' else None)"
  "declineDisplay (prepared title description e c d st s) = (if d \<noteq> Prim Undefined then Some ''block'' else None)"
  "preModalFocusTarget (prepared title description e c d st s) = activeElement s"
  "isActive (prepared title description e c d st s) = isActive s"
  "activeElement (prepared title description e c d st s) = Some ModalContent"
  "calls (prepared title description e c d st s) = calls s"
  by (simp_all add: prepared_def focus_def frame_registerActions)

lemma frame_end_modal:
  "calls (end_modal s) = calls s @ new_calls s (end_modal s)"
  "list_all (\<lambda>x. snd x = isActive s) (new_calls s (end_modal s))"
  "activeElement (end_modal s) = (case preModalFocusTarget s of None \<Rightarrow> activeElement s | Some e \<Rightarrow> Some e)"
  "preModalFocusTarget (end_modal s) = None"
  "isActive (end_modal s) = False"
  "modalDisplay (end_modal s) = None"
proof -
  let ?s3 = "(case preModalFocusTarget s of None \<Rightarrow> s\<lparr>modalDisplay := None\<rparr>
              | Some e \<Rightarrow> focus e (s\<lparr>modalDisplay := None\<rparr>))\<lparr>preModalFocusTarget := None\<rparr>"
  have e: "end_modal s = (invokeEvent onEnd ?s3)\<lparr>isActive := False\<rparr>"
    by (simp add: end_modal.simps Let_def)
  have f: "frame ?s3 (invokeEvent onEnd ?s3)" by (rule frame_invokeEvent) simp
  have c3: "calls ?s3 = calls s" "isActive ?s3 = isActive s"
    by (simp_all add: focus_def split: option.splits)
  have n: "new_calls s (end_modal s) = new_calls ?s3 (invokeEvent onEnd ?s3)"
    by (simp add: e new_calls_def c3)
  show "calls (end_modal s) = calls s @ new_calls s (end_modal s)"
    using f unfolding n by (simp add: e frame_def c3)
  show "list_all (\<lambda>x. snd x = isActive s) (new_calls s (end_modal s))"
    using f unfolding n by (simp add: frame_def c3)
  show "activeElement (end_modal s) = (case preModalFocusTarget s of None \<Rightarrow> activeElement s | Some e \<Rightarrow> Some e)"
    using f by (simp add: e frame_def focus_def split: option.splits)
  show "preModalFocusTarget (end_modal s) = None" using f by (simp add: e frame_def)
  show "isActive (end_modal s) = False" by (simp add: e)
  show "modalDisplay (end_modal s) = None" using f by (simp add: e frame_def focus_def split: option.splits)
qed

lemma start_result:
  assumes "start title description e c d st s = (None, s')"
  shows "\<not> isActive s"
    and "s' = (invokeEvent onStart (prepared title description e c d st s))\<lparr>isActive := True\<rparr>"
    and "frame (prepared title description e c d st s) (invokeEvent onStart (prepared title description e c d st s))"
proof -
  show na: "\<not> isActive s" using assms by (auto simp: start_def split: if_splits)
  show "s' = (invokeEvent onStart (prepared title description e c d st s))\<lparr>isActive := True\<rparr>"
    using assms start_prepared [OF na] by simp
  show "frame (prepared title description e c d st s) (invokeEvent onStart (prepared title description e c d st s))"
    by (rule frame_invokeEvent) simp
qed

lemma value_ok_user [simp]: "value_ok t (as_fns u)"
  by (cases u) (auto simp: value_ok_def)

lemma value_ok_cleanup [simp]: "value_ok onEnd (Array [Cleanup])"
  by (simp add: value_ok_def)

lemma registerActions_wf:
  assumes "wf s" and "value_ok t v"
  shows "wf (registerActions t v s)"
    and "attached (registerActions t v s) = attached s @ entry t v (nextId s)"
proof -
  let ?l = "\<lparr> ltype = t, lid = nextId s, lactions = v \<rparr>"
  have fresh: "\<not> list_ex (same_listener ?l) (attached s)"
    using assms(1) by (auto simp: wf_def list_ex_iff list_all_iff same_listener_def listener_ok_def)
  then show a: "attached (registerActions t v s) = attached s @ entry t v (nextId s)"
    by (simp add: registerActions_def entry_def addEventListener_def Let_def)
  have r: "registeredListeners (registerActions t v s) = registeredListeners s @ entry t v (nextId s)"
    by (simp add: registerActions_def entry_def Let_def)
  have n: "nextId (registerActions t v s) = nextId s + length (entry t v (nextId s))"
    by (simp add: registerActions_def entry_def Let_def)
  have old: "list_all (listener_ok (nextId s + length (entry t v (nextId s)))) (attached s)"
    using assms(1) by (fastforce simp: wf_def list_all_iff listener_ok_def)
  have new: "list_all (listener_ok (nextId s + length (entry t v (nextId s)))) (entry t v (nextId s))"
    using assms(2)
    by (cases v) (auto simp: entry_def listener_ok_def is_cleanup_def user_listener_def value_ok_def split: if_splits)
  show "wf (registerActions t v s)"
    using assms(1) old new unfolding wf_def a r n by (simp add: wf_def)
qed

lemma fired_append:
  "fired t (xs @ ys)
     = (if list_ex is_cleanup (filter (\<lambda>l. ltype l = t) xs) then fired t xs else fired t xs @ fired t ys)"
proof (cases "list_ex is_cleanup (filter (\<lambda>l. ltype l = t) xs)")
  case True
  then obtain x where "x \<in> set (filter (\<lambda>l. ltype l = t) xs)" "\<not> \<not> is_cleanup x"
    by (auto simp: list_ex_iff)
  then have "takeWhile (\<lambda>l. \<not> is_cleanup l) (filter (\<lambda>l. ltype l = t) xs @ filter (\<lambda>l. ltype l = t) ys)
               = takeWhile (\<lambda>l. \<not> is_cleanup l) (filter (\<lambda>l. ltype l = t) xs)"
    by (rule takeWhile_append1)
  with True show ?thesis by (simp add: fired_def)
next
  case False
  then have a: "\<And>x. x \<in> set (filter (\<lambda>l. ltype l = t) xs) \<Longrightarrow> \<not> is_cleanup x"
    by (auto simp: list_ex_iff)
  have h1: "takeWhile (\<lambda>l. \<not> is_cleanup l) (filter (\<lambda>l. ltype l = t) xs @ filter (\<lambda>l. ltype l = t) ys)
               = filter (\<lambda>l. ltype l = t) xs @ takeWhile (\<lambda>l. \<not> is_cleanup l) (filter (\<lambda>l. ltype l = t) ys)"
    using a by (rule takeWhile_append2)
  have h2: "takeWhile (\<lambda>l. \<not> is_cleanup l) (filter (\<lambda>l. ltype l = t) xs) = filter (\<lambda>l. ltype l = t) xs"
    using a by simp
  show ?thesis
    by (simp only: fired_def filter_append h1 h2 False if_False map_append concat_append)
qed

lemma fired_Nil [simp]: "fired t [] = []"
  by (simp add: fired_def)

lemma callbacks_in_map [simp]: "callbacks_in (map Callback cs) = cs"
  by (induction cs) simp_all

lemma fired_entry_user:
  "fired t (entry t' (as_fns u) n) = (if t = t' then actions_of u else [])"
  by (cases u) (auto simp: fired_def entry_def is_cleanup_def callbacks_of_def)

lemma cleanup_entry_user [simp]:
  "\<not> list_ex is_cleanup (filter P (entry t' (as_fns u) n))"
  by (cases u) (auto simp: entry_def is_cleanup_def list_ex_iff)


lemma filter_entry:
  "filter (\<lambda>l. ltype l \<noteq> t) (entry t' v n) = (if t = t' then [] else entry t' v n)"
  "filter (\<lambda>l. ltype l = t) (entry t' v n) = (if t = t' then entry t' v n else [])"
  by (auto simp: entry_def)

lemma entry_cleanup:
  "entry onEnd (Array [Cleanup]) n = [\<lparr> ltype = onEnd, lid = n, lactions = Array [Cleanup] \<rparr>]"
  by (simp add: entry_def)

lemma fired_cleanup [simp]: "fired t (entry onEnd (Array [Cleanup]) n) = []"
  by (simp add: fired_def entry_def is_cleanup_def)

lemma cleanup_entry_cleanup [simp]:
  "list_ex is_cleanup (filter (\<lambda>l. ltype l = t) (entry onEnd (Array [Cleanup]) n)) = (t = onEnd)"
  by (auto simp: entry_def is_cleanup_def)

lemma no_cleanup_filter:
  "\<not> list_ex is_cleanup ls \<Longrightarrow> \<not> list_ex is_cleanup (filter P ls)"
  by (auto simp: list_ex_iff)

lemma wf_no_cleanup_other:
  "wf s \<Longrightarrow> t \<noteq> onEnd \<Longrightarrow> \<not> list_ex is_cleanup (filter (\<lambda>l. ltype l = t) (attached s))"
  by (auto simp: wf_def list_all_iff list_ex_iff listener_ok_def)

lemma wf_fields:
  "attached s' = attached s \<Longrightarrow> registeredListeners s' = registeredListeners s \<Longrightarrow> nextId s' = nextId s
     \<Longrightarrow> wf s' = wf s"
  by (simp add: wf_def)

lemma prepared_wf:
  assumes "wf s"
  shows "wf (prepared title description e c d st s)"
    and "\<exists>n0 n1 n2 n3 n4. attached (prepared title description e c d st s)
           = attached s @ entry onStart (as_fns st) n0 @ entry onConfirm (as_fns c) n1
               @ entry onDecline (as_fns d) n2 @ entry onEnd (as_fns e) n3
               @ entry onEnd (Array [Cleanup]) n4"
proof -
  let ?s1 = "s\<lparr>titleHTML := title, descriptionHTML := description\<rparr>"
  let ?s2 = "registerActions onStart (as_fns st) ?s1"
  let ?s3 = "registerActions onConfirm (as_fns c) ?s2"
  let ?s4 = "registerActions onDecline (as_fns d) ?s3"
  let ?s5 = "registerActions onEnd (as_fns e) ?s4"
  let ?s6 = "registerActions onEnd (Array [Cleanup]) ?s5"
  have w1: "wf ?s1" using assms by (auto simp: wf_def)
  note r2 = registerActions_wf [OF w1 value_ok_user, of onStart st]
  note r3 = registerActions_wf [OF r2(1) value_ok_user, of onConfirm c]
  note r4 = registerActions_wf [OF r3(1) value_ok_user, of onDecline d]
  note r5 = registerActions_wf [OF r4(1) value_ok_user, of onEnd e]
  note r6 = registerActions_wf [OF r5(1) value_ok_cleanup]
  have p: "attached (prepared title description e c d st s) = attached ?s6"
    "registeredListeners (prepared title description e c d st s) = registeredListeners ?s6"
    "nextId (prepared title description e c d st s) = nextId ?s6"
    by (simp_all add: prepared_def focus_def)
  show "wf (prepared title description e c d st s)"
    using r6(1) wf_fields [OF p] by simp
  have "attached ?s6 = attached s @ entry onStart (as_fns st) (nextId ?s1) @ entry onConfirm (as_fns c) (nextId ?s2)
               @ entry onDecline (as_fns d) (nextId ?s3) @ entry onEnd (as_fns e) (nextId ?s4)
               @ entry onEnd (Array [Cleanup]) (nextId ?s5)"
    unfolding r6(2) r5(2) r4(2) r3(2) r2(2) by simp
  then show "\<exists>n0 n1 n2 n3 n4. attached (prepared title description e c d st s)
           = attached s @ entry onStart (as_fns st) n0 @ entry onConfirm (as_fns c) n1
               @ entry onDecline (as_fns d) n2 @ entry onEnd (as_fns e) n3
               @ entry onEnd (Array [Cleanup]) n4"
    unfolding p(1) by blast
qed

lemma start_wf:
  assumes "wf s" and "start title description e c d st s = (None, s1)"
  shows "wf s1" and "isActive s1"
    and "calls s1 = calls s @ map (\<lambda>x. (x, False)) (fired onStart (attached s) @ actions_of st)"
    and "\<exists>n1 n2 n3 n4. attached s1
           = filter (\<lambda>l. ltype l \<noteq> onStart) (attached s) @ entry onConfirm (as_fns c) n1
               @ entry onDecline (as_fns d) n2 @ entry onEnd (as_fns e) n3
               @ entry onEnd (Array [Cleanup]) n4"
proof -
  let ?p = "prepared title description e c d st s"
  note r = start_result [OF assms(2)]
  note pw = prepared_wf [OF assms(1), of title description e c d st]
  obtain n0 n1 n2 n3 n4 where a: "attached ?p
           = attached s @ entry onStart (as_fns st) n0 @ entry onConfirm (as_fns c) n1
               @ entry onDecline (as_fns d) n2 @ entry onEnd (as_fns e) n3
               @ entry onEnd (Array [Cleanup]) n4"
    using pw(2) by blast
  have i: "invokeEvent onStart ?p
          = ?p\<lparr> calls := calls ?p @ map (\<lambda>c. (c, isActive ?p)) (fired onStart (attached ?p)),
                 attached := remaining onStart (attached ?p),
                 registeredListeners := remaining onStart (attached ?p) \<rparr>"
    by (rule invokeEvent_wf [OF pw(1)]) simp
  have nc: "\<not> list_ex is_cleanup (filter (\<lambda>l. ltype l = onStart) (attached s))"
    using wf_no_cleanup_other [OF assms(1), of onStart] by simp
  have nc': "\<not> list_ex is_cleanup (filter (\<lambda>l. ltype l = onStart) (attached ?p))"
    using wf_no_cleanup_other [OF pw(1), of onStart] by simp
  have rem: "remaining onStart (attached ?p) = filter (\<lambda>l. ltype l \<noteq> onStart) (attached s) @ entry onConfirm (as_fns c) n1
               @ entry onDecline (as_fns d) n2 @ entry onEnd (as_fns e) n3
               @ entry onEnd (Array [Cleanup]) n4"
    using nc' unfolding remaining_def by (simp add: a filter_entry)
  have fir: "fired onStart (attached ?p) = fired onStart (attached s) @ actions_of st"
    unfolding a using nc by (simp add: fired_append fired_entry_user)
  show "wf s1" using wf_invokeEvent [OF pw(1), of onStart] by (auto simp: r(2) wf_def)
  show "isActive s1" by (simp add: r(2))
  show "calls s1 = calls s @ map (\<lambda>x. (x, False)) (fired onStart (attached s) @ actions_of st)"
    using r(1) by (simp add: r(2) i fir prepared_fields)
  show "\<exists>n1 n2 n3 n4. attached s1
           = filter (\<lambda>l. ltype l \<noteq> onStart) (attached s) @ entry onConfirm (as_fns c) n1
               @ entry onDecline (as_fns d) n2 @ entry onEnd (as_fns e) n3
               @ entry onEnd (Array [Cleanup]) n4"
    using rem by (simp add: r(2) i) blast
qed

lemma remaining_cleanup:
  "list_ex is_cleanup (filter (\<lambda>l. ltype l = t) ls) \<Longrightarrow> remaining t ls = []"
  by (simp add: remaining_def)






lemma no_cleanup_entry_user [simp]: "\<not> list_ex is_cleanup (entry t (as_fns u) n)"
  by (cases u) (auto simp: entry_def is_cleanup_def list_ex_iff)

lemma wf_constructor: "wf (constructor b)"
  by (simp add: wf_def constructor_def)




section \<open>Every reachable state is well formed\<close>

text \<open>
  \<open>wf\<close> and \<open>closed_clean\<close> hold after the constructor and are kept by every public
  operation and every click, so they hold in each state a script of calls can reach.
\<close>

lemma wf_log_calls [simp]: "wf (log_calls cs s) = wf s"
  by (simp add: wf_def log_calls_def)

lemma invoke_users_log:
  "list_all user_listener ls \<Longrightarrow> \<exists>cs. invoke_listeners ls s = log_calls cs s"
proof (induction ls arbitrary: s)
  case Nil
  have "invoke_listeners [] s = log_calls [] s" by (simp add: log_calls_def)
  then show ?case by blast
next
  case (Cons l ls)
  let ?s1 = "if list_ex (same_listener l) (attached s) then run_listener l s else s"
  have "\<exists>cs. ?s1 = log_calls cs s"
  proof (cases "list_ex (same_listener l) (attached s)")
    case True
    then have "?s1 = log_calls (callbacks_of l) s"
      using Cons.prems by (simp add: run_listener_user del: run_listener.simps)
    then show ?thesis by blast
  next
    case False
    then have "?s1 = log_calls [] s" by (simp add: log_calls_def)
    then show ?thesis by blast
  qed
  then obtain cs where cs: "?s1 = log_calls cs s" by blast
  from Cons obtain ds where "invoke_listeners ls ?s1 = log_calls ds ?s1" by fastforce
  then have "invoke_listeners (l # ls) s = log_calls (cs @ ds) s"
    by (simp add: cs log_calls_append del: run_listener.simps)
  then show ?case by blast
qed

lemma wf_users_of_type:
  "wf s \<Longrightarrow> t \<noteq> onEnd \<Longrightarrow> list_all user_listener (filter (\<lambda>l. ltype l = t) (attached s))"
  by (auto simp: wf_def list_all_iff listener_ok_def split: if_splits)

lemma dispatch_click_wf:
  assumes "wf s"
  shows "\<exists>cs. dispatchEvent ''click'' s = log_calls cs (end_modal s)"
  using invoke_users_log [OF wf_users_of_type [OF assms, of "''click''"], of "end_modal s"]
  by (simp add: dispatchEvent.simps)

lemma wf_remove_registered:
  assumes "wf s"
  shows "wf (remove_registered (length (registeredListeners s)) t s)"
proof -
  have eq: "attached s = registeredListeners s" using assms by (simp add: wf_def)
  show ?thesis using assms unfolding remove_registered_wf [OF eq]
    by (auto simp: wf_def list_all_iff)
qed

lemma wf_invokeEvent_any: "wf s \<Longrightarrow> wf (invokeEvent t s)"
proof (cases "t = ''click''")
  case False
  assume "wf s"
  then show ?thesis using False by (rule wf_invokeEvent)
next
  case True
  assume w: "wf s"
  obtain cs where "dispatchEvent ''click'' s = log_calls cs (end_modal s)"
    using dispatch_click_wf [OF w] by blast
  then have "wf (dispatchEvent t s)" using wf_end_modal [OF w] True by simp
  then show ?thesis by (simp add: invokeEvent.simps Let_def wf_remove_registered)
qed

lemma bubble_click_log:
  assumes "wf s"
  shows "\<exists>cs. bubble_click s = log_calls cs s"
  using invoke_users_log [OF wf_users_of_type [OF assms, of "''click''"], of s]
  by (simp add: bubble_click_def)

lemma wf_bubble_click: "wf s \<Longrightarrow> wf (bubble_click s)"
  using bubble_click_log [of s] by auto

lemma wf_start: "wf s \<Longrightarrow> wf (snd (start title description e c d st s))"
proof (cases "isActive s")
  case True
  assume "wf s"
  then show ?thesis using True by (simp add: start_def)
next
  case False
  assume w: "wf s"
  have "start title description e c d st s = (None, snd (start title description e c d st s))"
    using False by (simp add: start_prepared)
  from start_wf(1) [OF w this] show ?thesis .
qed

lemma wf_step: "wf s \<Longrightarrow> wf (snd (step x s))"
proof (cases x)
  case (RegisterActions t v)
  assume "wf s"
  then show ?thesis using RegisterActions registerActions_wf(1) [OF _ value_ok_user] by simp
next
  case ClickOverlay
  assume w: "wf s"
  then show ?thesis using ClickOverlay dispatch_click_wf [OF w] wf_end_modal [OF w]
    by (auto simp: click_overlay_def)
qed (auto simp: wf_start wf_end_modal wf_invokeEvent_any wf_bubble_click
       click_confirm_def click_decline_def click_close_def
       set_confirmText_def set_declineText_def wf_def [of "s\<lparr>confirmLabel := v\<rparr>" for v]
       wf_def [of "s\<lparr>declineLabel := v\<rparr>" for v] wf_def [of s])

lemma no_cleanup_end_modal:
  assumes "wf s"
  shows "\<not> list_ex is_cleanup (attached (end_modal s))"
proof -
  have "\<And>l. l \<in> set (attached s) \<Longrightarrow> is_cleanup l \<Longrightarrow> ltype l = onEnd"
    using assms by (auto simp: wf_def list_all_iff listener_ok_def)
  then have "\<not> list_ex is_cleanup (remaining onEnd (attached s))"
    by (auto simp: remaining_def list_ex_iff)
  then show ?thesis by (simp add: end_modal_wf [OF assms])
qed

lemma closed_clean_end: "wf s \<Longrightarrow> closed_clean (end_modal s)"
  by (simp add: closed_clean_def wf_end_modal no_cleanup_end_modal)

lemma closed_clean_log: "closed_clean (log_calls cs s) = closed_clean s"
  by (simp add: closed_clean_def) (simp add: log_calls_def)

lemma remaining_subset: "set (remaining t ls) \<subseteq> set ls"
  by (auto simp: remaining_def)

lemma closed_clean_invokeEvent:
  assumes "closed_clean s"
  shows "closed_clean (invokeEvent t s)"
proof (cases "t = ''click''")
  case False
  have w: "wf s" using assms by (simp add: closed_clean_def)
  have "\<not> isActive s \<longrightarrow> \<not> list_ex is_cleanup (remaining t (attached s))"
    using assms remaining_subset [of t "attached s"] by (auto simp: closed_clean_def list_ex_iff)
  then show ?thesis
    using wf_invokeEvent [OF w False] by (simp add: closed_clean_def) (simp add: invokeEvent_wf [OF w False])
next
  case True
  have w: "wf s" using assms by (simp add: closed_clean_def)
  obtain cs where d: "dispatchEvent ''click'' s = log_calls cs (end_modal s)"
    using dispatch_click_wf [OF w] by blast
  let ?s1 = "dispatchEvent t s"
  have c1: "closed_clean ?s1" using closed_clean_end [OF w] by (simp add: True d closed_clean_log)
  then have w1: "wf ?s1" by (simp add: closed_clean_def)
  then have eq: "attached ?s1 = registeredListeners ?s1" by (simp add: wf_def)
  have "\<not> isActive ?s1" by (simp add: True d log_calls_def frame_end_modal)
  then have "\<not> list_ex is_cleanup (attached ?s1)" using c1 by (simp add: closed_clean_def)
  then have "\<not> list_ex is_cleanup (filter (\<lambda>l. ltype l \<noteq> t) (registeredListeners ?s1))"
    unfolding eq by (rule no_cleanup_filter)
  then show ?thesis
    using wf_invokeEvent_any [OF w, of t]
    by (simp add: closed_clean_def) (simp add: invokeEvent.simps Let_def remove_registered_wf [OF eq])
qed

lemma closed_clean_bubble_click: "closed_clean s \<Longrightarrow> closed_clean (bubble_click s)"
proof -
  assume c: "closed_clean s"
  then have "wf s" by (simp add: closed_clean_def)
  then obtain cs where "bubble_click s = log_calls cs s" using bubble_click_log by blast
  then show ?thesis using c by (simp add: closed_clean_log)
qed

lemma closed_clean_start:
  assumes "closed_clean s"
  shows "closed_clean (snd (start title description e c d st s))"
proof (cases "isActive s")
  case True
  then show ?thesis using assms by (simp add: start_def)
next
  case False
  have w: "wf s" using assms by (simp add: closed_clean_def)
  have st: "start title description e c d st s = (None, snd (start title description e c d st s))"
    using False by (simp add: start_prepared)
  from start_wf(1,2) [OF w st] show ?thesis by (simp add: closed_clean_def)
qed

lemma closed_clean_registerActions:
  assumes "closed_clean s"
  shows "closed_clean (registerActions t (as_fns v) s)"
proof -
  have w: "wf s" using assms by (simp add: closed_clean_def)
  note r = registerActions_wf [OF w value_ok_user, of t v]
  show ?thesis using assms r(1) unfolding closed_clean_def r(2)
    by (simp add: frame_registerActions)
qed

lemma closed_clean_step: "closed_clean s \<Longrightarrow> closed_clean (snd (step x s))"
proof (cases x)
  case (SetConfirmText p)
  assume "closed_clean s"
  then show ?thesis using SetConfirmText by (auto simp: closed_clean_def wf_def set_confirmText_def)
next
  case (SetDeclineText p)
  assume "closed_clean s"
  then show ?thesis using SetDeclineText by (auto simp: closed_clean_def wf_def set_declineText_def)
next
  case ClickOverlay
  assume c: "closed_clean s"
  then have w: "wf s" by (simp add: closed_clean_def)
  obtain cs where "dispatchEvent ''click'' s = log_calls cs (end_modal s)"
    using dispatch_click_wf [OF w] by blast
  then show ?thesis using ClickOverlay closed_clean_end [OF w]
    by (simp add: click_overlay_def closed_clean_log)
next
  case End
  assume "closed_clean s"
  then have "wf s" by (simp add: closed_clean_def)
  then show ?thesis using End by (simp add: closed_clean_end)
next
  case ClickClose
  assume "closed_clean s"
  then have "wf s" by (simp add: closed_clean_def)
  then show ?thesis using ClickClose
    by (simp add: click_close_def closed_clean_bubble_click closed_clean_end)
next
  case ClickConfirm
  assume "closed_clean s"
  then have "wf (invokeEvent onConfirm s)" by (simp add: closed_clean_def wf_invokeEvent_any)
  then show ?thesis using ClickConfirm
    by (simp add: click_confirm_def closed_clean_bubble_click closed_clean_end)
next
  case ClickDecline
  assume "closed_clean s"
  then have "wf (invokeEvent onDecline s)" by (simp add: closed_clean_def wf_invokeEvent_any)
  then show ?thesis using ClickDecline
    by (simp add: click_decline_def closed_clean_bubble_click closed_clean_end)
qed (simp_all add: closed_clean_start closed_clean_registerActions closed_clean_invokeEvent)

lemma closed_clean_run: "closed_clean s \<Longrightarrow> closed_clean (snd (run xs s))"
proof (induction xs arbitrary: s)
  case Nil
  then show ?case by simp
next
  case (Cons x xs)
  have c: "closed_clean (snd (step x s))" using Cons.prems by (rule closed_clean_step)
  show ?case
  proof (cases "step x s")
    case (Pair err s1)
    then show ?thesis using c Cons.IH [of s1] by (cases err) simp_all
  qed
qed

lemma closed_clean_constructor: "closed_clean (constructor b)"
  by (simp add: closed_clean_def wf_constructor) (simp add: constructor_def)

subsection \<open>Labels, button display and the cleanup listener\<close>



text \<open>What \<open>start\<close> does to the two buttons, whatever the dialog showed before.\<close>

lemma start_button_display:
  assumes "start title description e c d st s = (None, s1)"
  shows "visible (confirmDisplay s1) = (c \<noteq> Prim Undefined)"
    and "visible (declineDisplay s1) = (d \<noteq> Prim Undefined)"
  using start_result(2,3) [OF assms] by (simp_all add: frame_def prepared_fields visible_def)

text \<open>
  The cleanup listener of an invocation survives every call that leaves the dialog open,
  except a hand-made dispatch of the end event; while it is attached, \<open>end\<close> empties
  the registry and the listener list of the root.
\<close>

lemma keeps_cleanup_step:
  assumes "wf s" and "has_cleanup s" and "keeps_cleanup x"
  shows "fst (step x s) = None \<and> wf (snd (step x s)) \<and> has_cleanup (snd (step x s))"
proof (cases x)
  case (RegisterActions t v)
  note r = registerActions_wf [OF assms(1) value_ok_user, of t v]
  show ?thesis using assms(2) r by (simp add: RegisterActions has_cleanup_def)
next
  case (InvokeEvent t)
  then have t: "t \<noteq> ''click''" "t \<noteq> onEnd" using assms(3) by simp_all
  have nc: "\<not> list_ex is_cleanup (filter (\<lambda>l. ltype l = t) (attached s))"
    by (rule wf_no_cleanup_other [OF assms(1) t(2)])
  have "filter (\<lambda>l. ltype l = onEnd) (filter (\<lambda>l. ltype l \<noteq> t) (attached s))
          = filter (\<lambda>l. ltype l = onEnd) (attached s)"
    using t(2) by (auto intro: filter_cong)
  then have "has_cleanup (invokeEvent t s)"
    using assms(2) nc by (simp add: invokeEvent_wf [OF assms(1) t(1)] has_cleanup_def remaining_def)
  then show ?thesis using wf_invokeEvent [OF assms(1) t(1)] by (simp add: InvokeEvent)
next
  case (SetConfirmText p)
  then show ?thesis using assms(1,2) by (auto simp: set_confirmText_def wf_def has_cleanup_def)
next
  case (SetDeclineText p)
  then show ?thesis using assms(1,2) by (auto simp: set_declineText_def wf_def has_cleanup_def)
qed (use assms(3) in simp_all)

lemma keeps_cleanup_run:
  "wf s \<Longrightarrow> has_cleanup s \<Longrightarrow> list_all keeps_cleanup xs
     \<Longrightarrow> fst (run xs s) = None \<and> wf (snd (run xs s)) \<and> has_cleanup (snd (run xs s))"
proof (induction xs arbitrary: s)
  case Nil
  then show ?case by simp
next
  case (Cons x xs)
  have k: "fst (step x s) = None \<and> wf (snd (step x s)) \<and> has_cleanup (snd (step x s))"
    using Cons.prems by (intro keeps_cleanup_step) simp_all
  then obtain s1 where s1: "step x s = (None, s1)" by (cases "step x s") auto
  with k Cons.prems have "fst (run xs s1) = None \<and> wf (snd (run xs s1)) \<and> has_cleanup (snd (run xs s1))"
    by (intro Cons.IH) simp_all
  then show ?case by (simp add: s1)
qed

lemma end_detaches_everything:
  assumes "wf s" and "start title description e c d st s = (None, s1)"
    and "list_all keeps_cleanup xs"
  shows "fst (run xs s1) = None"
    and "attached (end_modal (snd (run xs s1))) = []"
    and "registeredListeners (end_modal (snd (run xs s1))) = []"
proof -
  note w = start_wf [OF assms(1,2)]
  have h: "has_cleanup s1" using w(4) by (auto simp: has_cleanup_def)
  note k = keeps_cleanup_run [OF w(1) h assms(3)]
  show "fst (run xs s1) = None" using k by simp
  have r: "remaining onEnd (attached (snd (run xs s1))) = []"
    using k by (simp add: has_cleanup_def remaining_cleanup)
  show "attached (end_modal (snd (run xs s1))) = []" using k by (simp add: end_modal_wf r)
  show "registeredListeners (end_modal (snd (run xs s1))) = []" using k by (simp add: end_modal_wf r)
qed

section \<open>Starting an active dialog\<close>

text \<open>
  C1. When \<open>isActive\<close> is true, \<open>start\<close> with any arguments raises the "already active"
  error and returns the instance state it was given, unchanged in every field.
\<close>

theorem start_active_rejected:
  "isActive s \<Longrightarrow> start title description e c d st s = (Some AlreadyActive, s)"
  by (simp add: start_def)

theorem start_active_rejected_witness:
  "isActive ((constructor True)\<lparr>isActive := True\<rparr>) \<and>
   start ''T'' ''D'' (Array [1]) (Array [2]) (Prim Undefined) (Prim Null)
         ((constructor True)\<lparr>isActive := True\<rparr>)
     = (Some AlreadyActive, (constructor True)\<lparr>isActive := True\<rparr>)"
proof -
  have a: "isActive ((constructor True)\<lparr>isActive := True\<rparr>)" by simp
  show ?thesis using a start_active_rejected [OF a] by simp
qed

section \<open>The active flag\<close>

text \<open>
  C3. After a \<open>start\<close> that returns without error the \<open>isActive\<close> getter gives true, and
  after \<open>end\<close> it gives false, whatever the state before.
\<close>

theorem isActive_after_start_and_end:
  "(start title description e c d st s = (None, s') \<longrightarrow> isActive s') \<and> \<not> isActive (end_modal s)"
  using start_result(2) [of title description e c d st s s'] by (auto simp: frame_end_modal)

theorem isActive_after_start_and_end_witness:
  "start ''T'' ''D'' (Array [6, 7]) (Array [3]) (Prim Undefined) (Array [9]) (constructor True)
     = (None, snd (start ''T'' ''D'' (Array [6, 7]) (Array [3]) (Prim Undefined) (Array [9]) (constructor True)))
   \<and> isActive (snd (start ''T'' ''D'' (Array [6, 7]) (Array [3]) (Prim Undefined) (Array [9]) (constructor True)))
   \<and> \<not> isActive (end_modal (snd (start ''T'' ''D'' (Array [6, 7]) (Array [3]) (Prim Undefined) (Array [9]) (constructor True))))"
proof -
  let ?r = "start ''T'' ''D'' (Array [6, 7]) (Array [3]) (Prim Undefined) (Array [9]) (constructor True)"
  have "\<not> isActive (constructor True)" by (simp add: constructor_def)
  then have st: "?r = (None, snd ?r)" by (simp add: start_prepared)
  from isActive_after_start_and_end [of "''T''" "''D''" "Array [6, 7]" "Array [3]" "Prim Undefined"
      "Array [9]" "constructor True" "snd ?r"]
    isActive_after_start_and_end [of "''T''" "''D''" "Array [6, 7]" "Array [3]" "Prim Undefined"
      "Array [9]" "snd ?r" "snd ?r"] st
  show ?thesis by blast
qed



section \<open>Focus\<close>



section \<open>Buttons and callback groups\<close>



section \<open>Button visibility\<close>

text \<open>
  C5. \<open>start\<close> shows a button when the argument is anything but \<^verbatim>\<open>undefined\<close>
  (\<open>start_button_display\<close>). With \<^verbatim>\<open>null\<close> as the confirm group, which \<open>registerActions\<close>
  treats as no group, the confirm button is shown although no confirm listener is
  registered, and a click on it calls nothing.
\<close>

theorem null_group_shows_button:
  "fst (start ''T'' ''D'' (Prim Undefined) (Prim Null) (Prim Undefined) (Prim Undefined) (constructor True)) = None
   \<and> visible (confirmDisplay (snd (start ''T'' ''D'' (Prim Undefined) (Prim Null) (Prim Undefined) (Prim Undefined) (constructor True))))
   \<and> filter (\<lambda>l. ltype l = onConfirm)
        (registeredListeners (snd (start ''T'' ''D'' (Prim Undefined) (Prim Null) (Prim Undefined) (Prim Undefined) (constructor True)))) = []
   \<and> calls (click_confirm (snd (start ''T'' ''D'' (Prim Undefined) (Prim Null) (Prim Undefined) (Prim Undefined) (constructor True)))) = []"
  by code_simp

section \<open>Detaching the callbacks of an invocation\<close>

text \<open>
  C2. A script of public calls after which a callback registered during the invocation
  is still attached once \<open>end\<close> has returned: the end event dispatched by hand spends the
  cleanup listener, so the confirm callback registered afterwards survives \<open>end\<close>, is
  called by the next confirm event, and is called again as part of the next invocation.
  (\<open>end_detaches_everything\<close> is the case without the hand-made end event.)
\<close>

theorem listener_leaks_after_manual_end_event:
  "fst (run [Start ''T'' ''D'' (Prim Undefined) (Prim Undefined) (Prim Undefined) (Prim Undefined),
             InvokeEvent onEnd, RegisterActions onConfirm (Array [5]), End] (constructor True)) = None
   \<and> \<not> isActive (snd (run [Start ''T'' ''D'' (Prim Undefined) (Prim Undefined) (Prim Undefined) (Prim Undefined),
             InvokeEvent onEnd, RegisterActions onConfirm (Array [5]), End] (constructor True)))
   \<and> map ltype (registeredListeners (snd (run [Start ''T'' ''D'' (Prim Undefined) (Prim Undefined) (Prim Undefined) (Prim Undefined),
             InvokeEvent onEnd, RegisterActions onConfirm (Array [5]), End] (constructor True)))) = [onConfirm]
   \<and> calls (snd (run [Start ''T'' ''D'' (Prim Undefined) (Prim Undefined) (Prim Undefined) (Prim Undefined),
             InvokeEvent onEnd, RegisterActions onConfirm (Array [5]), End] (constructor True))) = []
   \<and> calls (invokeEvent onConfirm (snd (run [Start ''T'' ''D'' (Prim Undefined) (Prim Undefined) (Prim Undefined) (Prim Undefined),
             InvokeEvent onEnd, RegisterActions onConfirm (Array [5]), End] (constructor True)))) = [(5, False)]
   \<and> calls (snd (run [Start ''T'' ''D'' (Prim Undefined) (Prim Undefined) (Prim Undefined) (Prim Undefined),
             InvokeEvent onEnd, RegisterActions onConfirm (Array [5]), End,
             Start ''T2'' ''D2'' (Prim Undefined) (Array [8]) (Prim Undefined) (Prim Undefined),
             ClickConfirm] (constructor True))) = [(5, True), (8, True)]"
  by code_simp

section \<open>Button labels\<close>

text \<open>
  C7, as the claim states it, fails for the empty string: assigning it leaves the default
  label, not the empty one.
\<close>

theorem confirmText_empty_string_counterexample:
  "confirmLabel (set_confirmText (Str []) (constructor True)) \<noteq> []"
  by (simp add: set_confirmText_def constructor_def)

text \<open>
  C7, amended. Assigning a non-empty string to \<open>confirmText\<close> or \<open>declineText\<close> makes it
  the label of that button, and assigning a nullish value resets the label to its default,
  "Ok" or "Decline".
\<close>

theorem setters_nonempty_or_nullish:
  "(txt \<noteq> [] \<longrightarrow> confirmLabel (set_confirmText (Str txt) s) = txt
                  \<and> declineLabel (set_declineText (Str txt) s) = txt)
   \<and> (nullish p \<longrightarrow> confirmLabel (set_confirmText p s) = DEFAULT_CONFIRM_TEXT
                  \<and> declineLabel (set_declineText p s) = DEFAULT_DECLINE_TEXT)"
  by (auto simp: set_confirmText_def set_declineText_def nullish_def)

theorem setters_nonempty_or_nullish_witness:
  "''Yes'' \<noteq> [] \<and> confirmLabel (set_confirmText (Str ''Yes'') (constructor True)) = ''Yes''
   \<and> declineLabel (set_declineText (Str ''Yes'') (constructor True)) = ''Yes''
   \<and> nullish Null
   \<and> confirmLabel (set_confirmText Null (set_confirmText (Str ''Yes'') (constructor True))) = ''Ok''
   \<and> declineLabel (set_declineText Null (set_declineText (Str ''No'') (constructor True))) = ''Decline''"
proof -
  have a: "''Yes'' \<noteq> []" by simp
  have b: "nullish Null" by (simp add: nullish_def)
  from setters_nonempty_or_nullish [of "''Yes''" "constructor True" Null]
    setters_nonempty_or_nullish [of "''Yes''" "set_confirmText (Str ''Yes'') (constructor True)" Null]
    setters_nonempty_or_nullish [of "''Yes''" "set_declineText (Str ''No'') (constructor True)" Null]
    a b
  show ?thesis by blast
qed



section \<open>Errors\<close>



end
